theory Spec2Isabelle
  imports Main "HOL-Library.Multiset"
begin

section \<open>Data model (src/types.ts)\<close>

text \<open>
  The four log levels of the enum \<open>LogLevel\<close>; \<open>level_value\<close> is the string each
  member stands for at run time.
\<close>

datatype LogLevel = DEBUG | INFO | WARN | ERROR

fun level_value :: "LogLevel \<Rightarrow> string" where
  "level_value DEBUG = ''debug''"
| "level_value INFO = ''info''"
| "level_value WARN = ''warn''"
| "level_value ERROR = ''error''"

text \<open>
  JSON data, the values a metadata record holds. An object is given by its own
  enumerable properties in enumeration order. Numbers are integers: fractions, NaN and
  the infinities are outside the model.
\<close>

datatype json =
    JNull
  | JBool bool
  | JNum int
  | JStr string
  | JArr "json list"
  | JObj "(string \<times> json) list"

type_synonym props = "(string \<times> json) list"

text \<open>
  What reaches the parameter \<open>metadata?: Record<string, unknown>\<close> at run time: nothing
  (\<open>undefined\<close>), a plain record, or an \<open>Error\<close> object. An \<open>Error\<close> object carries its
  \<open>name\<close> (inherited), its \<open>message\<close> and \<open>stack\<close> (own, not enumerable) and whatever own
  enumerable properties were put on it (\<open>code\<close>, \<open>errno\<close>, ...).
\<close>

datatype metadata =
    Undefined
  | Record props
  | ErrorObject string string string props

record LogEntry =
  timestamp :: string
  level :: LogLevel
  service :: string
  message :: string
  metadata :: metadata

section \<open>JavaScript objects\<close>

text \<open>
  Truthiness of an optional JSON value (\<open>None\<close> is \<open>undefined\<close>): \<open>undefined\<close>, \<open>null\<close>,
  \<open>false\<close>, \<open>0\<close> and the empty string are falsy, everything else is truthy.
\<close>

fun truthy :: "json option \<Rightarrow> bool" where
  "truthy None = False"
| "truthy (Some JNull) = False"
| "truthy (Some (JBool b)) = b"
| "truthy (Some (JNum n)) = (n \<noteq> 0)"
| "truthy (Some (JStr s)) = (s \<noteq> [])"
| "truthy (Some (JArr xs)) = True"
| "truthy (Some (JObj kvs)) = True"

text \<open>
  Property keys that are array indices (canonical decimal numerals below \<open>2^32 - 1\<close>,
  which is 4294967295)
  are enumerated first, in ascending numeric order; all other string keys follow in
  the order of their creation.
\<close>

definition is_digit :: "char \<Rightarrow> bool" where
  "is_digit c = (c \<in> set ''0123456789'')"

definition digit_value :: "char \<Rightarrow> int" where
  "digit_value c = of_char c - 48"

definition index_value :: "string \<Rightarrow> int" where
  "index_value s = foldl (\<lambda>n c. 10 * n + digit_value c) 0 s"

definition is_array_index :: "string \<Rightarrow> bool" where
  "is_array_index s =
     (s \<noteq> [] \<and> list_all is_digit s \<and> (s = ''0'' \<or> hd s \<noteq> CHR ''0'')
      \<and> index_value s < 4294967295)"

text \<open>
  \<open>insert_key k v ps\<close> creates the property \<open>k\<close> in an object that does not have it:
  an array index goes before the first larger index (or after the last index), any
  other key goes to the end.
\<close>

fun insert_key :: "string \<Rightarrow> json \<Rightarrow> props \<Rightarrow> props" where
  "insert_key k v [] = [(k, v)]"
| "insert_key k v ((k', v') # ps) =
     (if is_array_index k \<and> (\<not> is_array_index k' \<or> index_value k < index_value k')
      then (k, v) # (k', v') # ps
      else (k', v') # insert_key k v ps)"

text \<open>Overwriting an existing property keeps its place.\<close>

fun replace_value :: "string \<Rightarrow> json \<Rightarrow> props \<Rightarrow> props" where
  "replace_value k v [] = []"
| "replace_value k v ((k', v') # ps) =
     (if k' = k then (k, v) # ps else (k', v') # replace_value k v ps)"

definition put :: "props \<Rightarrow> string \<times> json \<Rightarrow> props" where
  "put ps kv =
     (if fst kv \<in> set (map fst ps) then replace_value (fst kv) (snd kv) ps
      else insert_key (fst kv) (snd kv) ps)"

text \<open>
  The spread \<open>{ ...target, ...source }\<close>: every own enumerable property of the source is
  put on the target, in the source's enumeration order.
\<close>

definition spread :: "props \<Rightarrow> props \<Rightarrow> props" where
  "spread target source = foldl put target source"

text \<open>
  The own enumerable properties of a metadata value, and reading one property (for a
  key that \<open>Object.prototype\<close> and \<open>Error.prototype\<close> do not define beyond \<open>name\<close> and
  \<open>message\<close>).
\<close>

fun own_enumerable :: "metadata \<Rightarrow> props" where
  "own_enumerable Undefined = []"
| "own_enumerable (Record ps) = ps"
| "own_enumerable (ErrorObject n m s ps) = ps"

fun get_prop :: "metadata \<Rightarrow> string \<Rightarrow> json option" where
  "get_prop Undefined k = None"
| "get_prop (Record ps) k = map_of ps k"
| "get_prop (ErrorObject n m s ps) k =
     (case map_of ps k of
        Some v \<Rightarrow> Some v
      | None \<Rightarrow>
          if k = ''message'' then Some (JStr m)
          else if k = ''stack'' then Some (JStr s)
          else if k = ''name'' then Some (JStr n)
          else None)"

text \<open>
  A JSON text is represented by the value it denotes: \<open>JSON.stringify\<close> prints JSON data
  without loss and \<open>JSON.parse\<close> reads it back, so two texts are equal exactly when the
  printed values are, key order included.
\<close>

datatype json_text = JSON_stringify json

fun JSON_parse :: "json_text \<Rightarrow> json" where
  "JSON_parse (JSON_stringify v) = v"

section \<open>Retry with exponential backoff (src/utils/retry.ts)\<close>

text \<open>
  A thrown value is an \<open>Error\<close> instance (with its message) or any other value (with the
  string \<open>String(v)\<close> makes of it). \<open>as_Error\<close> is
  \<open>error instanceof Error ? error : new Error(String(error))\<close>.
\<close>

datatype thrown = Error_instance string | Non_Error string

fun as_Error :: "thrown \<Rightarrow> thrown" where
  "as_Error (Error_instance m) = Error_instance m"
| "as_Error (Non_Error s) = Error_instance s"

text \<open>
  What \<open>retryWithBackoff\<close> does, in order: \<open>Call i\<close> is invocation number \<open>i\<close> of \<open>fn\<close>
  (counted from 0), \<open>Sleep ms\<close> a call of \<open>sleep(ms)\<close>.
\<close>

datatype io = Call nat | Sleep int

fun is_Call :: "io \<Rightarrow> bool" where
  "is_Call (Call i) = True"
| "is_Call (Sleep d) = False"

definition calls :: "io list \<Rightarrow> nat" where
  "calls tr = length (filter is_Call tr)"

fun sleeps :: "io list \<Rightarrow> int list" where
  "sleeps [] = []"
| "sleeps (Call i # tr) = sleeps tr"
| "sleeps (Sleep d # tr) = d # sleeps tr"

text \<open>
  The \<open>for\<close> loop of \<open>retryWithBackoff\<close>. The function \<open>fn\<close> is given by the outcome of
  each of its invocations: \<open>fn i\<close> is \<open>Inr v\<close> when invocation \<open>i\<close> resolves with \<open>v\<close> and
  \<open>Inl e\<close> when it rejects with \<open>e\<close>. The result is the trace and either the returned
  value or the thrown one (\<open>None\<close> is \<open>undefined\<close>, the value of \<open>lastError\<close> when the loop
  body never ran). Numbers are unbounded integers.
\<close>

function retry_loop ::
  "(nat \<Rightarrow> thrown + 'a) \<Rightarrow> int \<Rightarrow> int \<Rightarrow> int \<Rightarrow> thrown option
    \<Rightarrow> io list \<times> (thrown option + 'a)" where
  "retry_loop fn retries baseDelay attempt lastError =
     (if attempt \<le> retries then
        (case fn (nat attempt) of
           Inr v \<Rightarrow> ([Call (nat attempt)], Inr v)
         | Inl error \<Rightarrow>
             (if attempt = retries then ([Call (nat attempt)], Inl (Some (as_Error error)))
              else
                (case retry_loop fn retries baseDelay (attempt + 1) (Some (as_Error error)) of
                   (tr, r) \<Rightarrow>
                     (Call (nat attempt) # Sleep (baseDelay * 2 ^ nat attempt) # tr, r))))
      else ([], Inl lastError))"
  by pat_completeness auto
termination
  by (relation "measure (\<lambda>(fn, retries, baseDelay, attempt, lastError). nat (retries + 1 - attempt))")
    auto

declare retry_loop.simps [simp del]

definition retryWithBackoff ::
  "(nat \<Rightarrow> thrown + 'a) \<Rightarrow> int \<Rightarrow> int \<Rightarrow> io list \<times> (thrown option + 'a)" where
  "retryWithBackoff fn retries baseDelay = retry_loop fn retries baseDelay 0 None"

section \<open>JSONL formatter (src/formatters/jsonl.ts)\<close>

text \<open>
  \<open>...(entry.metadata && { ...entry.metadata })\<close>: nothing is spread when the metadata is
  \<open>undefined\<close>; otherwise (an object is always truthy) its own enumerable properties are
  copied to a fresh object, which is then spread onto the target.
\<close>

definition spread_metadata :: "props \<Rightarrow> metadata \<Rightarrow> props" where
  "spread_metadata target md =
     (case md of
        Undefined \<Rightarrow> target
      | _ \<Rightarrow> spread target (spread [] (own_enumerable md)))"

definition logObject :: "LogEntry \<Rightarrow> props" where
  "logObject entry =
     spread_metadata
       (spread []
          [(''timestamp'', JStr (timestamp entry)),
           (''level'', JStr (level_value (level entry))),
           (''service'', JStr (service entry)),
           (''message'', JStr (message entry))])
       (metadata entry)"

text \<open>
  \<open>formatJSONL\<close> returns \<open>JSON.stringify(logObject) + "\n"\<close>: the JSON text and the
  terminator that follows it.
\<close>

definition formatJSONL :: "LogEntry \<Rightarrow> json_text \<times> string" where
  "formatJSONL entry = (JSON_stringify (JObj (logObject entry)), [CHR 0x0A])"

section \<open>Loki formatter (formatLokiPayload)\<close>

text \<open>The field \<open>values\<close> of a stream is \<open>stream_values\<close> here.\<close>

record LokiStream =
  stream :: json
  stream_values :: "(string \<times> json_text) list"

record LokiPushPayload =
  streams :: "LokiStream list"

text \<open>\<open>entry.metadata?.event\<close>\<close>

definition event_of :: "LogEntry \<Rightarrow> json option" where
  "event_of entry = get_prop (metadata entry) ''event''"

text \<open>
  The object literal \<open>{ service, level, ...(event && { event }), ...staticLabels }\<close>.
  A falsy \<open>event\<close> spreads nothing.
\<close>

definition labels_of :: "props \<Rightarrow> LogEntry \<Rightarrow> props" where
  "labels_of staticLabels entry =
     spread
       (case event_of entry of
          None \<Rightarrow>
            spread [] [(''service'', JStr (service entry)),
                       (''level'', JStr (level_value (level entry)))]
        | Some event \<Rightarrow>
            if truthy (Some event) then
              spread
                (spread [] [(''service'', JStr (service entry)),
                            (''level'', JStr (level_value (level entry)))])
                [(''event'', event)]
            else
              spread [] [(''service'', JStr (service entry)),
                         (''level'', JStr (level_value (level entry)))])
       staticLabels"

definition labelKey_of :: "props \<Rightarrow> LogEntry \<Rightarrow> json_text" where
  "labelKey_of staticLabels entry = JSON_stringify (JObj (labels_of staticLabels entry))"

text \<open>
  The \<open>Map\<close> from label key to group, in insertion order: \<open>Map_set\<close> on a key that is
  present keeps the key's place.
\<close>

fun Map_set :: "('k \<times> 'v) list \<Rightarrow> 'k \<Rightarrow> 'v \<Rightarrow> ('k \<times> 'v) list" where
  "Map_set [] k v = [(k, v)]"
| "Map_set ((k', v') # m) k v =
     (if k' = k then (k', v) # m else (k', v') # Map_set m k v)"

text \<open>The body of the first loop: \<open>streamMap.get(labelKey) || []\<close>, \<open>push\<close>, \<open>set\<close>.\<close>

definition group_entry ::
  "props \<Rightarrow> (json_text \<times> LogEntry list) list \<Rightarrow> LogEntry \<Rightarrow> (json_text \<times> LogEntry list) list" where
  "group_entry staticLabels streamMap entry =
     Map_set streamMap (labelKey_of staticLabels entry)
       ((case map_of streamMap (labelKey_of staticLabels entry) of
           None \<Rightarrow> []
         | Some entries \<Rightarrow> entries) @ [entry])"

definition logLine :: "LogEntry \<Rightarrow> props" where
  "logLine entry =
     spread_metadata (spread [] [(''message'', JStr (message entry))]) (metadata entry)"

text \<open>
  One element of \<open>values\<close>. \<open>toNanoseconds\<close> (src/utils/timestamp.ts) multiplies floating
  point numbers; it is a parameter here.
\<close>

definition value_of :: "(string \<Rightarrow> string) \<Rightarrow> LogEntry \<Rightarrow> string \<times> json_text" where
  "value_of toNanoseconds entry =
     (toNanoseconds (timestamp entry), JSON_stringify (JObj (logLine entry)))"

definition to_stream ::
  "(string \<Rightarrow> string) \<Rightarrow> json_text \<times> LogEntry list \<Rightarrow> LokiStream" where
  "to_stream toNanoseconds kg =
     \<lparr>stream = JSON_parse (fst kg), stream_values = map (value_of toNanoseconds) (snd kg)\<rparr>"

definition formatLokiPayload ::
  "(string \<Rightarrow> string) \<Rightarrow> LogEntry list \<Rightarrow> props \<Rightarrow> LokiPushPayload" where
  "formatLokiPayload toNanoseconds entries staticLabels =
     \<lparr>streams = map (to_stream toNanoseconds) (foldl (group_entry staticLabels) [] entries)\<rparr>"

section \<open>Loki transport (class LokiTransport)\<close>

text \<open>
  \<open>Array.prototype.sort\<close> is a stable sort: with a consistent comparator the result is
  the one insertion sort gives, an element staying behind the elements that compare
  equal to it and came before it.
\<close>

fun insert_sorted :: "('a \<Rightarrow> 'a \<Rightarrow> int) \<Rightarrow> 'a \<Rightarrow> 'a list \<Rightarrow> 'a list" where
  "insert_sorted compareFn x [] = [x]"
| "insert_sorted compareFn x (y # ys) =
     (if compareFn x y \<le> 0 then x # y # ys else y # insert_sorted compareFn x ys)"

definition Array_sort :: "('a \<Rightarrow> 'a \<Rightarrow> int) \<Rightarrow> 'a list \<Rightarrow> 'a list" where
  "Array_sort compareFn xs = foldr (insert_sorted compareFn) xs []"

text \<open>
  The comparator of \<open>sendBatch\<close>. \<open>getTime\<close> is \<open>new Date(s).getTime()\<close>, a parameter: the
  timestamps are taken to be valid dates (an invalid one gives NaN).
\<close>

definition by_timestamp :: "(string \<Rightarrow> int) \<Rightarrow> LogEntry \<Rightarrow> LogEntry \<Rightarrow> int" where
  "by_timestamp getTime a b = getTime (timestamp a) - getTime (timestamp b)"

text \<open>
  The fields of the class that the batching logic reads and writes. \<open>batchTimer\<close> is
  \<open>True\<close> while the interval is registered. The URL, the timeout, the compression flag
  and the credentials are used by \<open>sendToLoki\<close> only, which is given by its outcomes.
\<close>

record LokiTransport =
  batch :: "LogEntry list"
  batchTimer :: bool
  isFlushing :: bool
  batchSize :: int
  retries :: int
  staticLabels :: props

record LokiConfig =
  config_batchSize :: "int option"
  config_retries :: "int option"
  config_labels :: "props option"

text \<open>The constructor: defaults by \<open>??\<close>, then \<open>startBatchTimer()\<close>.\<close>

definition new_LokiTransport :: "LokiConfig \<Rightarrow> LokiTransport" where
  "new_LokiTransport config =
     \<lparr>batch = [],
      batchTimer = True,
      isFlushing = False,
      batchSize = (case config_batchSize config of None \<Rightarrow> 100 | Some n \<Rightarrow> n),
      retries = (case config_retries config of None \<Rightarrow> 3 | Some n \<Rightarrow> n),
      staticLabels = (case config_labels config of None \<Rightarrow> [] | Some l \<Rightarrow> l)\<rparr>"

text \<open>
  \<open>sendBatch\<close> up to the sort: the guard, the snapshot, the reset and the sort run
  without interruption, and so does the start of the first request (the first \<open>await\<close>
  is on \<open>fetch\<close>). \<open>None\<close> is the early return, \<open>Some entries\<close> the sorted batch taken.
\<close>

definition sendBatch_begin ::
  "(string \<Rightarrow> int) \<Rightarrow> LokiTransport \<Rightarrow> LokiTransport \<times> LogEntry list option" where
  "sendBatch_begin getTime t =
     (if length (batch t) = 0 \<or> isFlushing t then (t, None)
      else (t\<lparr>batch := []\<rparr>, Some (Array_sort (by_timestamp getTime) (batch t))))"

text \<open>
  What one call of \<open>sendBatch\<close> that took a batch did: the entries given to the
  formatter, the payload, the trace of \<open>retryWithBackoff\<close>, and the arguments of
  \<open>console.error\<close> (number of entries, \<open>this.retries\<close>, the error) when all attempts
  failed.
\<close>

record send_report =
  entries_sent :: "LogEntry list"
  payload :: LokiPushPayload
  trace :: "io list"
  console_error :: "(nat \<times> int \<times> thrown option) option"

text \<open>
  The whole of \<open>sendBatch\<close>, run to completion. \<open>sendToLoki payload i\<close> is the outcome of
  request number \<open>i\<close> for that payload. The last component is how the promise settles:
  \<open>Inr ()\<close> fulfilled, \<open>Inl e\<close> rejected with \<open>e\<close>.
\<close>

definition sendBatch ::
  "(string \<Rightarrow> int) \<Rightarrow> (string \<Rightarrow> string) \<Rightarrow> (LokiPushPayload \<Rightarrow> nat \<Rightarrow> thrown + unit)
    \<Rightarrow> LokiTransport \<Rightarrow> LokiTransport \<times> send_report option \<times> (thrown option + unit)" where
  "sendBatch getTime toNanoseconds sendToLoki t =
     (case sendBatch_begin getTime t of
        (t', None) \<Rightarrow> (t', None, Inr ())
      | (t', Some entries) \<Rightarrow>
          (case retryWithBackoff
                  (sendToLoki (formatLokiPayload toNanoseconds entries (staticLabels t')))
                  (retries t') 1000 of
             (tr, Inr u) \<Rightarrow>
               (t',
                Some \<lparr>entries_sent = entries,
                      payload = formatLokiPayload toNanoseconds entries (staticLabels t'),
                      trace = tr, console_error = None\<rparr>,
                Inr ())
           | (tr, Inl error) \<Rightarrow>
               (t',
                Some \<lparr>entries_sent = entries,
                      payload = formatLokiPayload toNanoseconds entries (staticLabels t'),
                      trace = tr,
                      console_error = Some (length entries, retries t', error)\<rparr>,
                Inr ())))"

text \<open>
  \<open>log(entry)\<close>: the push, and the call of \<open>sendBatch\<close> when the batch is full. The
  method returns after the uninterrupted part of \<open>sendBatch\<close>; a rejection of its promise
  would go to the \<open>catch\<close> handler.
\<close>

definition LokiTransport_log ::
  "(string \<Rightarrow> int) \<Rightarrow> LokiTransport \<Rightarrow> LogEntry \<Rightarrow> LokiTransport \<times> LogEntry list option" where
  "LokiTransport_log getTime t entry =
     (if int (length (batch t @ [entry])) \<ge> batchSize t
      then sendBatch_begin getTime (t\<lparr>batch := batch t @ [entry]\<rparr>)
      else (t\<lparr>batch := batch t @ [entry]\<rparr>, None))"



text \<open>The callback of \<open>setInterval\<close> in \<open>startBatchTimer\<close>.\<close>

definition timer_callback ::
  "(string \<Rightarrow> int) \<Rightarrow> LokiTransport \<Rightarrow> LokiTransport \<times> LogEntry list option" where
  "timer_callback getTime t =
     (if length (batch t) > 0 then sendBatch_begin getTime t else (t, None))"

text \<open>
  \<open>flush()\<close> up to its \<open>await\<close>: the timer is cleared, the flag is set, and with a
  non-empty batch \<open>sendBatch\<close> is called and awaited (third component \<open>True\<close>); with an
  empty batch the flag is cleared at once. \<open>flush_end\<close> is the statement after the
  \<open>await\<close>, and \<open>LokiTransport_flush\<close> the two with nothing running in between.
\<close>

definition flush_begin ::
  "(string \<Rightarrow> int) \<Rightarrow> LokiTransport \<Rightarrow> LokiTransport \<times> LogEntry list option \<times> bool" where
  "flush_begin getTime t =
     (if length (batch t) > 0 then
        (case sendBatch_begin getTime (t\<lparr>batchTimer := False, isFlushing := True\<rparr>) of
           (t', taken) \<Rightarrow> (t', taken, True))
      else (t\<lparr>batchTimer := False, isFlushing := False\<rparr>, None, False))"

definition flush_end :: "LokiTransport \<Rightarrow> LokiTransport" where
  "flush_end t = t\<lparr>isFlushing := False\<rparr>"

definition LokiTransport_flush ::
  "(string \<Rightarrow> int) \<Rightarrow> LokiTransport \<Rightarrow> LokiTransport \<times> LogEntry list option" where
  "LokiTransport_flush getTime t =
     (case flush_begin getTime t of
        (t', taken, awaited) \<Rightarrow> (if awaited then flush_end t' else t', taken))"

subsection \<open>The transport among the other tasks of the event loop\<close>

text \<open>
  JavaScript runs one task at a time and a task is interrupted at an \<open>await\<close> only. The
  state below adds to the transport what the run time holds: the entries ever given to
  \<open>log\<close>, the batches \<open>sendBatch\<close> took, the number of deliveries started and not yet
  settled, and the number of \<open>flush\<close> calls suspended at their \<open>await\<close>.
\<close>

record world =
  sink :: LokiTransport
  logged :: "LogEntry list"
  taken :: "LogEntry list list"
  in_flight :: nat
  awaiting :: nat

datatype action =
    Log LogEntry
  | Tick
  | Flush
  | Resume_flush
  | Delivery_done

definition record_taken :: "world \<Rightarrow> LogEntry list option \<Rightarrow> world" where
  "record_taken w r =
     (case r of
        None \<Rightarrow> w
      | Some entries \<Rightarrow> w\<lparr>taken := taken w @ [entries], in_flight := in_flight w + 1\<rparr>)"

text \<open>
  One task: a call of \<open>log\<close>, the interval firing (only while it is registered), a call
  of \<open>flush\<close> up to its \<open>await\<close>, a suspended \<open>flush\<close> resuming, a delivery settling. Under
  the flag \<open>sendBatch\<close> returns at once, so a suspended \<open>flush\<close> waits for no delivery.
\<close>

fun step :: "(string \<Rightarrow> int) \<Rightarrow> world \<Rightarrow> action \<Rightarrow> world" where
  "step getTime w (Log entry) =
     (case LokiTransport_log getTime (sink w) entry of
        (t, r) \<Rightarrow> record_taken (w\<lparr>sink := t, logged := logged w @ [entry]\<rparr>) r)"
| "step getTime w Tick =
     (if batchTimer (sink w) then
        (case timer_callback getTime (sink w) of (t, r) \<Rightarrow> record_taken (w\<lparr>sink := t\<rparr>) r)
      else w)"
| "step getTime w Flush =
     (case flush_begin getTime (sink w) of
        (t, r, awaited) \<Rightarrow>
          record_taken (w\<lparr>sink := t, awaiting := awaiting w + (if awaited then 1 else 0)\<rparr>) r)"
| "step getTime w Resume_flush =
     (if awaiting w > 0 then w\<lparr>sink := flush_end (sink w), awaiting := awaiting w - 1\<rparr>
      else w)"
| "step getTime w Delivery_done =
     (if in_flight w > 0 then w\<lparr>in_flight := in_flight w - 1\<rparr> else w)"

definition initial_world :: "LokiConfig \<Rightarrow> world" where
  "initial_world config =
     \<lparr>sink = new_LokiTransport config, logged = [], taken = [], in_flight = 0, awaiting = 0\<rparr>"

definition run :: "(string \<Rightarrow> int) \<Rightarrow> world \<Rightarrow> action list \<Rightarrow> world" where
  "run getTime w actions = foldl (step getTime) w actions"

section \<open>Logger (class Logger)\<close>

datatype transport = ConsoleTransport | FileTransport string | LokiTransport string

text \<open>The field \<open>service\<close> of the class is \<open>logger_service\<close> here.\<close>

record Logger =
  logger_service :: string
  transports :: "transport list"

text \<open>\<open>now\<close> is what \<open>getISOTimestamp()\<close> returns at the call.\<close>

definition createEntry :: "string \<Rightarrow> Logger \<Rightarrow> LogLevel \<Rightarrow> string \<Rightarrow> metadata \<Rightarrow> LogEntry" where
  "createEntry now lg lv msg md =
     \<lparr>timestamp = now, level = lv, service = logger_service lg, message = msg, metadata = md\<rparr>"

text \<open>
  The private method \<open>log\<close>: one entry, handed to \<open>transport.log\<close> of every transport in
  turn. The result lists these calls.
\<close>

definition Logger_log ::
  "string \<Rightarrow> Logger \<Rightarrow> LogLevel \<Rightarrow> string \<Rightarrow> metadata \<Rightarrow> (transport \<times> LogEntry) list" where
  "Logger_log now lg lv msg md = map (\<lambda>tr. (tr, createEntry now lg lv msg md)) (transports lg)"

text \<open>
  \<open>error(message, metadata?)\<close>, called with the arguments \<open>args\<close> after the message: the
  first one binds to \<open>metadata\<close> (\<open>undefined\<close> when there is none), any further argument
  binds to nothing.
\<close>

definition Logger_error ::
  "string \<Rightarrow> Logger \<Rightarrow> string \<Rightarrow> metadata list \<Rightarrow> (transport \<times> LogEntry) list" where
  "Logger_error now lg msg args =
     Logger_log now lg ERROR msg (case args of [] \<Rightarrow> Undefined | md # rest \<Rightarrow> md)"

section \<open>Vocabulary of the properties\<close>

text \<open>
  The trace of attempts \<open>a\<close> to \<open>k\<close> when every attempt before \<open>k\<close> fails: each failed
  attempt \<open>i\<close> is followed by a sleep of \<open>baseDelay * 2^i\<close>, and attempt \<open>k\<close> ends the trace.
\<close>

definition failures_then_call :: "int \<Rightarrow> nat \<Rightarrow> nat \<Rightarrow> io list" where
  "failures_then_call baseDelay a k =
     concat (map (\<lambda>i. [Call i, Sleep (baseDelay * 2 ^ i)]) [a..<k]) @ [Call k]"


text \<open>Every entry given to \<open>log\<close> is in the batch or in one taken batch, counted with multiplicity.\<close>

definition accounted :: "world \<Rightarrow> bool" where
  "accounted w = (mset (logged w) = mset (batch (sink w)) + mset (concat (taken w)))"

text \<open>The elements of a list in the order of their first occurrence.\<close>

fun first_occurrences :: "'a list \<Rightarrow> 'a list" where
  "first_occurrences [] = []"
| "first_occurrences (x # xs) = x # filter (\<lambda>y. y \<noteq> x) (first_occurrences xs)"

text \<open>Appending a key unless it is present: what \<open>Map.set\<close> does to the key order.\<close>

definition add_new :: "'a list \<Rightarrow> 'a \<Rightarrow> 'a list" where
  "add_new acc x = (if x \<in> set acc then acc else acc @ [x])"

text \<open>The stream of the entries of \<open>entries\<close> whose label key is \<open>k\<close>.\<close>

definition stream_for ::
  "(string \<Rightarrow> string) \<Rightarrow> props \<Rightarrow> LogEntry list \<Rightarrow> json_text \<Rightarrow> LokiStream" where
  "stream_for toNanoseconds statics entries k =
     \<lparr>stream = JSON_parse k,
      stream_values =
        map (value_of toNanoseconds) (filter (\<lambda>e. labelKey_of statics e = k) entries)\<rparr>"

text \<open>The group stored under a key of the \<open>Map\<close>, empty when the key is absent.\<close>

definition group_of :: "('k \<times> 'v list) list \<Rightarrow> 'k \<Rightarrow> 'v list" where
  "group_of m k = (case map_of m k of None \<Rightarrow> [] | Some es \<Rightarrow> es)"


section \<open>Example values\<close>

definition entry_a :: LogEntry where
  "entry_a = \<lparr>timestamp = ''2025-01-01T00:00:02.000Z'', level = INFO, service = ''svc'',
     message = ''a'', metadata = Record [(''event'', JStr ''login'')]\<rparr>"

definition sink_a :: LokiTransport where
  "sink_a = (new_LokiTransport
      \<lparr>config_batchSize = None, config_retries = Some 2, config_labels = None\<rparr>)
      \<lparr>batch := [entry_a]\<rparr>"


definition entry_b :: LogEntry where
  "entry_b = \<lparr>timestamp = ''2025-01-01T00:00:01.000Z'', level = INFO, service = ''svc'',
     message = ''b'', metadata = Undefined\<rparr>"

definition entry_c :: LogEntry where
  "entry_c = \<lparr>timestamp = ''2025-01-01T00:00:02.000Z'', level = INFO, service = ''svc'',
     message = ''c'', metadata = Record [(''event'', JStr '''')]\<rparr>"

text \<open>\<open>getTime\<close> on the timestamps of the example entries, in milliseconds.\<close>

definition example_getTime :: "string \<Rightarrow> int" where
  "example_getTime s =
     (if s = ''2025-01-01T00:00:01.000Z'' then 1735689601000
      else if s = ''2025-01-01T00:00:02.000Z'' then 1735689602000
      else 0)"

definition sink_abc :: LokiTransport where
  "sink_abc = (new_LokiTransport
      \<lparr>config_batchSize = None, config_retries = None, config_labels = None\<rparr>)
      \<lparr>batch := [entry_a, entry_b, entry_c]\<rparr>"

definition config_two :: LokiConfig where
  "config_two = \<lparr>config_batchSize = Some 2, config_retries = None, config_labels = None\<rparr>"

text \<open>A transport with batch size 2 after \<open>log(entry_a)\<close> and a call of \<open>flush()\<close> that is at its \<open>await\<close>.\<close>

definition world_flushing :: world where
  "world_flushing = run example_getTime (initial_world config_two) [Log entry_a, Flush]"

text \<open>A transport with batch size 2 after three calls of \<open>log\<close>: the first two entries are being delivered.\<close>

definition world_sending :: world where
  "world_sending =
     run example_getTime (initial_world config_two) [Log entry_a, Log entry_b, Log entry_c]"

text \<open>A new transport with default configuration after \<open>log(entry_a)\<close>.\<close>

definition world_one_pending :: world where
  "world_one_pending =
     run example_getTime
       (initial_world \<lparr>config_batchSize = None, config_retries = None, config_labels = None\<rparr>)
       [Log entry_a]"

definition entry_fake_message :: LogEntry where
  "entry_fake_message = \<lparr>timestamp = ''2025-01-01T00:00:01.000Z'', level = INFO, service = ''svc'',
     message = ''real'', metadata = Record [(''userId'', JNum 123), (''message'', JStr ''fake'')]\<rparr>"

text \<open>The \<open>Error\<close> of the repository's test "should handle Error objects in error logs".\<close>

definition error_boom :: metadata where
  "error_boom =
     ErrorObject ''Error'' ''Something went wrong''
       ''Error: Something went wrong at <anonymous>'' []"

definition statics_with_event :: props where
  "statics_with_event = [(''environment'', JStr ''prod''), (''event'', JStr ''X'')]"


section \<open>Lemmas\<close>

subsection \<open>Retry\<close>

lemma failures_then_call_step:
  "a < k \<Longrightarrow>
   failures_then_call b a k = Call a # Sleep (b * 2 ^ a) # failures_then_call b (Suc a) k"
  by (simp add: failures_then_call_def upt_conv_Cons)

lemma failures_then_call_same: "failures_then_call b k k = [Call k]"
  by (simp add: failures_then_call_def)

lemma retry_loop_all_fail:
  "0 \<le> a \<Longrightarrow> a \<le> r \<Longrightarrow> (\<forall>i. fn i = Inl (err i)) \<Longrightarrow>
   retry_loop fn r b a lastError =
     (failures_then_call b (nat a) (nat r), Inl (Some (as_Error (err (nat r)))))"
proof (induction fn r b a lastError rule: retry_loop.induct)
  case (1 fn r b a lastError)
  have e: "fn (nat a) = Inl (err (nat a))" using "1.prems" by simp
  show ?case
  proof (cases "a = r")
    case True
    then show ?thesis using e by (subst retry_loop.simps) (simp add: failures_then_call_same)
  next
    case False
    with "1.prems" have lt: "a < r" by simp
    have le: "a \<le> r" using lt by simp
    have n: "nat (a + 1) = Suc (nat a)" using "1.prems" by simp
    have ih: "retry_loop fn r b (a + 1) (Some (as_Error (err (nat a)))) =
      (failures_then_call b (nat (a + 1)) (nat r), Inl (Some (as_Error (err (nat r)))))"
      using "1.prems" lt by (intro "1.IH"[OF le e False]) auto
    have lt': "nat a < nat r" using lt "1.prems" by simp
    show ?thesis
      using False lt e ih n failures_then_call_step[OF lt', of b]
      by (subst retry_loop.simps) simp
  qed
qed


lemma calls_failures_then_call: "a \<le> k \<Longrightarrow> calls (failures_then_call b a k) = k - a + 1"
  by (induction "k - a" arbitrary: a)
    (auto simp: failures_then_call_same failures_then_call_step calls_def)

lemma sleeps_append: "sleeps (xs @ ys) = sleeps xs @ sleeps ys"
  by (induction xs rule: sleeps.induct) auto

lemma sleeps_failures_then_call:
  "sleeps (failures_then_call b a k) = map (\<lambda>i. b * 2 ^ i) [a..<k]"
  unfolding failures_then_call_def
  by (induction k) (auto simp: sleeps_append)

lemma backoff_delays: "map (\<lambda>i. b * 2 ^ i) [0..<n] = map (\<lambda>k. b * 2 ^ (k - 1)) [1..<n + 1]"
  by (induction n) auto


lemma sendBatch_begin_takes:
  "batch t \<noteq> [] \<Longrightarrow> \<not> isFlushing t \<Longrightarrow>
   sendBatch_begin gt t = (t\<lparr>batch := []\<rparr>, Some (Array_sort (by_timestamp gt) (batch t)))"
  by (simp add: sendBatch_begin_def)

lemma length_insert_sorted: "length (insert_sorted c x ys) = Suc (length ys)"
  by (induction ys) auto

lemma length_Array_sort: "length (Array_sort c xs) = length xs"
  by (induction xs) (auto simp: Array_sort_def length_insert_sorted)


subsection \<open>Sorting\<close>

lemma insert_sorted_by_timestamp:
  "insert_sorted (by_timestamp gt) x ys = insort_key (\<lambda>e. gt (timestamp e)) x ys"
  by (induction ys) (auto simp: by_timestamp_def)

lemma Array_sort_by_timestamp:
  "Array_sort (by_timestamp gt) xs = sort_key (\<lambda>e. gt (timestamp e)) xs"
  by (induction xs) (auto simp: Array_sort_def insert_sorted_by_timestamp)

lemma mset_Array_sort_by_timestamp: "mset (Array_sort (by_timestamp gt) xs) = mset xs"
  by (simp add: Array_sort_by_timestamp)

lemma sendBatch_report:
  "batch t \<noteq> [] \<Longrightarrow> \<not> isFlushing t \<Longrightarrow>
   \<exists>rep. fst (snd (sendBatch gt ns stl t)) = Some rep
     \<and> entries_sent rep = Array_sort (by_timestamp gt) (batch t)
     \<and> payload rep = formatLokiPayload ns (Array_sort (by_timestamp gt) (batch t)) (staticLabels t)"
  by (simp add: sendBatch_def sendBatch_begin_takes split: prod.splits sum.splits)

subsection \<open>Transport\<close>

lemma sendBatch_begin_skips:
  "batch t = [] \<or> isFlushing t \<Longrightarrow> sendBatch_begin gt t = (t, None)"
  by (auto simp: sendBatch_begin_def)

lemma sendBatch_skips:
  "batch t = [] \<or> isFlushing t \<Longrightarrow> sendBatch gt ns stl t = (t, None, Inr ())"
  by (simp add: sendBatch_def sendBatch_begin_skips)

lemma sendBatch_begin_accounted:
  "sendBatch_begin gt t = (t', r) \<Longrightarrow>
   mset (batch t) = mset (batch t') + (case r of None \<Rightarrow> {#} | Some es \<Rightarrow> mset es)"
  by (auto simp: sendBatch_begin_def mset_Array_sort_by_timestamp split: if_splits)

lemma accounted_record_taken:
  "accounted (record_taken w r) =
     (mset (logged w) = mset (batch (sink w)) + mset (concat (taken w))
        + (case r of None \<Rightarrow> {#} | Some es \<Rightarrow> mset es))"
  by (cases r) (auto simp: accounted_def record_taken_def)

lemma step_accounted: "accounted w \<Longrightarrow> accounted (step gt w a)"
proof (cases a)
  case (Log e)
  assume acc: "accounted w"
  obtain t r where l: "LokiTransport_log gt (sink w) e = (t, r)" by fastforce
  have "mset (batch (sink w)) + {#e#} = mset (batch t) + (case r of None \<Rightarrow> {#} | Some es \<Rightarrow> mset es)"
  proof (cases "int (length (batch (sink w) @ [e])) \<ge> batchSize (sink w)")
    case True
    then have "sendBatch_begin gt ((sink w)\<lparr>batch := batch (sink w) @ [e]\<rparr>) = (t, r)"
      using l by (simp add: LokiTransport_log_def)
    from sendBatch_begin_accounted[OF this] show ?thesis by simp
  next
    case False
    then show ?thesis using l by (auto simp: LokiTransport_log_def)
  qed
  then show ?thesis
    using acc Log l by (simp add: accounted_record_taken) (simp add: accounted_def)
next
  case Tick
  assume acc: "accounted w"
  obtain t r where l: "timer_callback gt (sink w) = (t, r)" by fastforce
  have "mset (batch (sink w)) = mset (batch t) + (case r of None \<Rightarrow> {#} | Some es \<Rightarrow> mset es)"
    using l sendBatch_begin_accounted[of gt "sink w" t r]
    by (auto simp: timer_callback_def split: if_splits)
  then show ?thesis
    using acc Tick l by (simp add: accounted_record_taken) (simp add: accounted_def)
next
  case Flush
  assume acc: "accounted w"
  obtain t r aw where l: "flush_begin gt (sink w) = (t, r, aw)" by (metis prod_cases3)
  have "mset (batch (sink w)) = mset (batch t) + (case r of None \<Rightarrow> {#} | Some es \<Rightarrow> mset es)"
    using l sendBatch_begin_accounted[of gt "(sink w)\<lparr>batchTimer := False, isFlushing := True\<rparr>" t r]
    by (auto simp: flush_begin_def split: if_splits prod.splits)
  then show ?thesis
    using acc Flush l by (simp add: accounted_record_taken) (simp add: accounted_def)
next
  case Resume_flush
  assume "accounted w"
  then show ?thesis using Resume_flush by (simp add: accounted_def flush_end_def)
next
  case Delivery_done
  assume "accounted w"
  then show ?thesis using Delivery_done by (simp add: accounted_def)
qed

lemma run_accounted: "accounted w \<Longrightarrow> accounted (run gt w acts)"
  unfolding run_def by (induction acts arbitrary: w) (auto simp: step_accounted)

lemma accounted_initial_world: "accounted (initial_world config)"
  by (simp add: accounted_def initial_world_def new_LokiTransport_def)

lemma world_sending_eq:
  "world_sending =
     \<lparr>sink = (new_LokiTransport config_two)\<lparr>batch := [entry_c]\<rparr>,
      logged = [entry_a, entry_b, entry_c],
      taken = [[entry_b, entry_a]], in_flight = 1, awaiting = 0\<rparr>"
  by (simp add: world_sending_def run_def initial_world_def config_two_def new_LokiTransport_def
      LokiTransport_log_def sendBatch_begin_def record_taken_def Array_sort_def by_timestamp_def
      example_getTime_def entry_a_def entry_b_def entry_c_def)


lemma world_one_pending_eq:
  "world_one_pending =
     \<lparr>sink = (new_LokiTransport
                \<lparr>config_batchSize = None, config_retries = None, config_labels = None\<rparr>)
               \<lparr>batch := [entry_a]\<rparr>,
      logged = [entry_a], taken = [], in_flight = 0, awaiting = 0\<rparr>"
  by (simp add: world_one_pending_def run_def initial_world_def new_LokiTransport_def
      LokiTransport_log_def record_taken_def)

lemma flush_never_takes:
  "snd (LokiTransport_flush gt t) = None \<and> batch (fst (LokiTransport_flush gt t)) = batch t"
  by (simp add: LokiTransport_flush_def flush_begin_def flush_end_def sendBatch_begin_def)

















subsection \<open>Objects\<close>

lemma keys_replace_value: "map fst (replace_value k v ps) = map fst ps"
  by (induction ps) auto

lemma mset_insert_key: "mset (insert_key k v ps) = add_mset (k, v) (mset ps)"
  by (induction ps) auto

lemma set_insert_key: "set (insert_key k v ps) = insert (k, v) (set ps)"
  using mset_insert_key[of k v ps, THEN arg_cong, of set_mset] by simp

lemma keys_insert_key: "set (map fst (insert_key k v ps)) = insert k (set (map fst ps))"
  by (simp add: set_insert_key)

lemma map_of_replace_value:
  "map_of ps k \<noteq> None \<Longrightarrow>
   map_of (replace_value k v ps) x = (if x = k then Some v else map_of ps x)"
  by (induction ps) (auto split: if_splits)

lemma map_of_insert_key:
  "map_of ps k = None \<Longrightarrow>
   map_of (insert_key k v ps) x = (if x = k then Some v else map_of ps x)"
  by (induction ps) (auto split: if_splits)

lemma map_of_put: "map_of (put ps (k, v)) = (map_of ps)(k \<mapsto> v)"
proof (cases "map_of ps k")
  case None
  then have "k \<notin> set (map fst ps)" by (simp add: map_of_eq_None_iff)
  then show ?thesis using None by (simp add: put_def map_of_insert_key fun_eq_iff)
next
  case (Some a)
  then have "k \<in> set (map fst ps)" using map_of_eq_None_iff[of ps k] by simp
  then show ?thesis using Some by (simp add: put_def map_of_replace_value fun_eq_iff)
qed

lemma distinct_insert_key:
  "k \<notin> set (map fst ps) \<Longrightarrow> distinct (map fst ps) \<Longrightarrow> distinct (map fst (insert_key k v ps))"
proof (induction ps)
  case Nil
  then show ?case by simp
next
  case (Cons p ps)
  obtain k' v' where p: "p = (k', v')" by (cases p)
  have "k' \<notin> set (map fst (insert_key k v ps))"
    using Cons.prems p by (simp only: keys_insert_key) auto
  then show ?case using Cons p by auto
qed

lemma keys_put: "set (map fst (put ps kv)) = insert (fst kv) (set (map fst ps))"
  by (auto simp: put_def keys_replace_value keys_insert_key simp del: set_map)

lemma distinct_put: "distinct (map fst ps) \<Longrightarrow> distinct (map fst (put ps kv))"
  by (simp add: put_def keys_replace_value distinct_insert_key del: set_map)

lemma map_of_spread: "map_of (spread target source) = map_of target ++ map_of (rev source)"
  unfolding spread_def
proof (induction source arbitrary: target)
  case Nil
  then show ?case by simp
next
  case (Cons kv source)
  obtain k v where kv: "kv = (k, v)" by (cases kv)
  show ?case
    unfolding foldl_Cons Cons.IH kv map_of_put
    by (auto simp: fun_eq_iff map_add_def split: option.splits)
qed

lemma distinct_spread: "distinct (map fst target) \<Longrightarrow> distinct (map fst (spread target source))"
  unfolding spread_def by (induction source arbitrary: target) (auto simp: distinct_put)

lemma keys_spread:
  "set (map fst (spread target source)) = set (map fst target) \<union> set (map fst source)"
  unfolding spread_def
  by (induction source arbitrary: target) (auto simp: keys_put simp del: set_map)

lemma map_of_rev_distinct: "distinct (map fst ps) \<Longrightarrow> map_of (rev ps) = map_of ps"
  by (rule map_of_inject_set[THEN iffD2]) (simp_all add: distinct_rev rev_map[symmetric])

lemma map_of_spread_metadata:
  "distinct (map fst (own_enumerable md)) \<Longrightarrow>
   map_of (spread_metadata target md) = map_of target ++ map_of (own_enumerable md)"
  by (cases md)
     (simp_all add: spread_metadata_def map_of_spread map_of_rev_distinct distinct_spread)

lemma spread_empty: "spread target [] = target"
  by (simp add: spread_def)

lemma reserved_fields:
  "spread []
     [(''timestamp'', a), (''level'', b), (''service'', c), (''message'', d)] =
   [(''timestamp'', a), (''level'', b), (''service'', c), (''message'', d)]"
  by (simp add: spread_def put_def is_array_index_def is_digit_def)

lemma distinct_spread_metadata:
  "distinct (map fst target) \<Longrightarrow> distinct (map fst (spread_metadata target md))"
  by (cases md) (simp_all add: spread_metadata_def distinct_spread)

subsection \<open>Grouping\<close>

lemma set_first_occurrences: "set (first_occurrences xs) = set xs"
  by (induction xs) auto

lemma distinct_first_occurrences: "distinct (first_occurrences xs)"
  by (induction xs) (auto simp: set_first_occurrences)

lemma foldl_add_new:
  "foldl add_new acc xs = acc @ filter (\<lambda>x. x \<notin> set acc) (first_occurrences xs)"
proof (induction xs arbitrary: acc)
  case Nil
  then show ?case by simp
next
  case (Cons x xs)
  show ?case
  proof (cases "x \<in> set acc")
    case True
    have "filter (\<lambda>y. y \<notin> set acc) (filter (\<lambda>y. y \<noteq> x) (first_occurrences xs)) =
          filter (\<lambda>y. y \<notin> set acc) (first_occurrences xs)"
      using True by (auto intro: filter_cong)
    then show ?thesis using True Cons.IH[of acc] by (simp add: add_new_def)
  next
    case False
    have "filter (\<lambda>y. y \<notin> set (acc @ [x])) (first_occurrences xs) =
          filter (\<lambda>y. y \<notin> set acc) (filter (\<lambda>y. y \<noteq> x) (first_occurrences xs))"
      by (auto intro: filter_cong)
    then show ?thesis using False Cons.IH[of "acc @ [x]"] by (simp add: add_new_def)
  qed
qed

lemma keys_Map_set: "map fst (Map_set m k v) = add_new (map fst m) k"
  by (induction m) (fastforce simp: add_new_def)+

lemma map_of_Map_set: "map_of (Map_set m k v) = (map_of m)(k \<mapsto> v)"
  by (induction m) (auto simp: fun_eq_iff)

lemma keys_group_entry:
  "map fst (group_entry st m e) = add_new (map fst m) (labelKey_of st e)"
  by (simp add: group_entry_def keys_Map_set)

lemma keys_grouped:
  "map fst (foldl (group_entry st) m es) = foldl add_new (map fst m) (map (labelKey_of st) es)"
  by (induction es arbitrary: m) (auto simp: keys_group_entry)

lemma group_of_group_entry:
  "group_of (group_entry st m e) k =
     (if labelKey_of st e = k then group_of m k @ [e] else group_of m k)"
  by (simp add: group_of_def group_entry_def map_of_Map_set)

lemma group_of_grouped:
  "group_of (foldl (group_entry st) m es) k =
     group_of m k @ filter (\<lambda>e. labelKey_of st e = k) es"
  by (induction es arbitrary: m) (auto simp: group_of_group_entry)

lemma distinct_add_new: "distinct acc \<Longrightarrow> distinct (add_new acc x)"
  by (simp add: add_new_def)

lemma distinct_keys_grouped:
  "distinct (map fst m) \<Longrightarrow> distinct (map fst (foldl (group_entry st) m es))"
  by (induction es arbitrary: m) (auto simp: keys_group_entry distinct_add_new)

lemma alist_by_keys:
  "distinct (map fst m) \<Longrightarrow> map (\<lambda>k. (k, group_of m k)) (map fst m) = m"
proof (induction m)
  case Nil
  then show ?case by simp
next
  case (Cons p m)
  obtain k v where p: "p = (k, v)" by (cases p)
  have d: "distinct (map fst m)" and n: "k \<notin> set (map fst m)"
    using Cons.prems p by simp_all
  have step: "map (\<lambda>k'. (k', group_of ((k, v) # m) k')) (map fst m) =
        map (\<lambda>k'. (k', group_of m k')) (map fst m)"
    using n by (intro map_cong) (auto simp: group_of_def)
  have "map (\<lambda>k'. (k', group_of (p # m) k')) (map fst (p # m)) =
        (k, v) # map (\<lambda>k'. (k', group_of ((k, v) # m) k')) (map fst m)"
    using p by (simp add: group_of_def)
  also have "\<dots> = (k, v) # map (\<lambda>k'. (k', group_of m k')) (map fst m)"
    by (simp only: step)
  also have "\<dots> = (k, v) # m"
    by (simp only: Cons.IH[OF d])
  finally show ?case using p by simp
qed

lemma grouped_from_empty:
  "foldl (group_entry st) [] es =
     map (\<lambda>k. (k, filter (\<lambda>e. labelKey_of st e = k) es))
       (first_occurrences (map (labelKey_of st) es))"
proof -
  let ?m = "foldl (group_entry st) [] es"
  have d: "distinct (map fst ?m)" by (rule distinct_keys_grouped) simp
  have k: "map fst ?m = first_occurrences (map (labelKey_of st) es)"
    by (simp add: keys_grouped foldl_add_new)
  have g: "group_of ?m k = filter (\<lambda>e. labelKey_of st e = k) es" for k
    by (simp add: group_of_grouped) (simp add: group_of_def)
  show ?thesis
    using alist_by_keys[OF d, symmetric] unfolding k g .
qed

lemma streams_by_label_key:
  "streams (formatLokiPayload ns es st) =
     map (stream_for ns st es) (first_occurrences (map (labelKey_of st) es))"
  by (simp add: formatLokiPayload_def grouped_from_empty to_stream_def stream_for_def)

lemma base_labels:
  "spread [] [(''service'', a), (''level'', b)] = [(''service'', a), (''level'', b)]"
  by (simp add: spread_def put_def is_array_index_def is_digit_def)

lemma base_labels_event:
  "spread [(''service'', a), (''level'', b)] [(''event'', c)] =
     [(''service'', a), (''level'', b), (''event'', c)]"
  by (simp add: spread_def put_def is_array_index_def is_digit_def)

lemma labels_of_falsy:
  "\<not> truthy (event_of e) \<Longrightarrow>
   labels_of st e =
     spread [(''service'', JStr (service e)), (''level'', JStr (level_value (level e)))] st"
  by (cases "event_of e") (simp_all add: labels_of_def base_labels)

lemma labels_of_truthy:
  "event_of e = Some v \<Longrightarrow> truthy (Some v) \<Longrightarrow>
   labels_of st e =
     spread [(''service'', JStr (service e)), (''level'', JStr (level_value (level e))),
             (''event'', v)] st"
  by (simp add: labels_of_def base_labels base_labels_event)

lemma filter_eq_distinct: "distinct xs \<Longrightarrow> x \<in> set xs \<Longrightarrow> filter (\<lambda>k. k = x) xs = [x]"
  by (induction xs) (auto simp: filter_empty_conv)

lemma stream_of_entry:
  assumes "e \<in> set es"
  shows "stream_for ns st es (labelKey_of st e) \<in> set (streams (formatLokiPayload ns es st))"
    and "filter (\<lambda>s. stream s = JObj (labels_of st e)) (streams (formatLokiPayload ns es st)) =
           [stream_for ns st es (labelKey_of st e)]"
proof -
  let ?ks = "first_occurrences (map (labelKey_of st) es)"
  have in_ks: "labelKey_of st e \<in> set ?ks"
    using assms by (simp add: set_first_occurrences del: set_map) simp
  then show "stream_for ns st es (labelKey_of st e) \<in> set (streams (formatLokiPayload ns es st))"
    by (simp add: streams_by_label_key)
  have eq: "(stream (stream_for ns st es k) = JObj (labels_of st e)) = (k = labelKey_of st e)" for k
    by (cases k) (auto simp: stream_for_def labelKey_of_def)
  have "filter (\<lambda>s. stream s = JObj (labels_of st e)) (map (stream_for ns st es) ?ks) =
        map (stream_for ns st es) (filter (\<lambda>k. k = labelKey_of st e) ?ks)"
    by (simp add: filter_map comp_def eq)
  also have "filter (\<lambda>k. k = labelKey_of st e) ?ks = [labelKey_of st e]"
    using in_ks distinct_first_occurrences[of "map (labelKey_of st) es"]
    by (simp add: filter_eq_distinct)
  finally show "filter (\<lambda>s. stream s = JObj (labels_of st e)) (streams (formatLokiPayload ns es st)) =
           [stream_for ns st es (labelKey_of st e)]"
    by (simp add: streams_by_label_key)
qed

lemma labels_entry_a:
  "labels_of statics_with_event entry_a =
     [(''service'', JStr ''svc''), (''level'', JStr ''info''), (''event'', JStr ''X''),
      (''environment'', JStr ''prod'')]"
  by (simp add: labels_of_def event_of_def entry_a_def statics_with_event_def
      base_labels base_labels_event)
     (simp add: spread_def put_def is_array_index_def is_digit_def)

lemma labels_entry_b:
  "labels_of statics_with_event entry_b =
     [(''service'', JStr ''svc''), (''level'', JStr ''info''),
      (''environment'', JStr ''prod''), (''event'', JStr ''X'')]"
  by (simp add: labels_of_def event_of_def entry_b_def statics_with_event_def base_labels)
     (simp add: spread_def put_def is_array_index_def is_digit_def)

lemma keys_insert_key_cong:
  "map fst ps = map fst qs \<Longrightarrow> map fst (insert_key k v ps) = map fst (insert_key k v' qs)"
proof (induction ps arbitrary: qs)
  case Nil
  then show ?case by simp
next
  case (Cons p ps)
  then obtain q qs' where q: "qs = q # qs'" by (cases qs) auto
  obtain a b where p: "p = (a, b)" by (cases p)
  obtain c d where q': "q = (c, d)" by (cases q)
  have "a = c" "map fst ps = map fst qs'" using Cons.prems q p q' by simp_all
  then show ?case using Cons.IH[of qs'] q p q' by auto
qed

lemma keys_put_cong:
  "map fst ps = map fst qs \<Longrightarrow> map fst (put ps (k, v)) = map fst (put qs (k, v'))"
  by (simp add: put_def keys_replace_value keys_insert_key_cong)

lemma keys_spread_cong:
  "map fst ps = map fst qs \<Longrightarrow> map fst (spread ps st) = map fst (spread qs st)"
  unfolding spread_def
proof (induction st arbitrary: ps qs)
  case Nil
  then show ?case by simp
next
  case (Cons kv st)
  obtain k v where kv: "kv = (k, v)" by (cases kv)
  show ?case
    unfolding foldl_Cons kv
    by (rule Cons.IH) (rule keys_put_cong[OF Cons.prems])
qed

lemma alist_eqI:
  "map fst xs = map fst ys \<Longrightarrow> distinct (map fst xs) \<Longrightarrow> map_of xs = map_of ys \<Longrightarrow> xs = ys"
proof (induction xs arbitrary: ys)
  case Nil
  then show ?case by simp
next
  case (Cons x xs)
  then obtain y ys' where y: "ys = y # ys'" by (cases ys) auto
  obtain a b where x: "x = (a, b)" by (cases x)
  obtain c d where y': "y = (c, d)" by (cases y)
  have ac: "a = c" and ks: "map fst xs = map fst ys'" using Cons.prems(1) y x y' by simp_all
  have n: "a \<notin> set (map fst xs)" and dx: "distinct (map fst xs)"
    using Cons.prems(2) x by simp_all
  have bd: "b = d"
    using fun_cong[OF Cons.prems(3), of a] x y y' ac by simp
  have "map_of xs k = map_of ys' k" for k
  proof (cases "k = a")
    case True
    have "map_of xs a = None" using n by (simp add: map_of_eq_None_iff)
    moreover have "map_of ys' a = None" using n ks by (simp add: map_of_eq_None_iff)
    ultimately show ?thesis using True by simp
  next
    case False
    then show ?thesis using fun_cong[OF Cons.prems(3), of k] x y y' ac by simp
  qed
  then have "map_of xs = map_of ys'" by (simp add: fun_eq_iff)
  then have "xs = ys'" using Cons.IH[OF ks dx] by simp
  then show ?case using x y y' ac bd by simp
qed

lemma distinct_labels_of: "distinct (map fst (labels_of st e))"
proof (cases "truthy (event_of e)")
  case True
  then obtain v where v: "event_of e = Some v" by (cases "event_of e") auto
  show ?thesis
    unfolding labels_of_truthy[OF v True[unfolded v]] by (rule distinct_spread) simp
next
  case False
  show ?thesis unfolding labels_of_falsy[OF False] by (rule distinct_spread) simp
qed

lemma event_key_iff:
  assumes "''event'' \<notin> set (map fst st)"
  shows "(''event'' \<in> set (map fst (labels_of st e))) = truthy (event_of e)"
proof (cases "truthy (event_of e)")
  case True
  then obtain v where v: "event_of e = Some v" by (cases "event_of e") auto
  show ?thesis
    unfolding labels_of_truthy[OF v True[unfolded v]] keys_spread using True by simp
next
  case False
  show ?thesis
    unfolding labels_of_falsy[OF False] keys_spread using False assms by simp
qed

lemma keys_labels_of:
  assumes "truthy (event_of e1) = truthy (event_of e2)"
  shows "map fst (labels_of st e1) = map fst (labels_of st e2)"
proof (cases "truthy (event_of e1)")
  case True
  then obtain v1 where v1: "event_of e1 = Some v1" by (cases "event_of e1") auto
  from True assms obtain v2 where v2: "event_of e2 = Some v2" by (cases "event_of e2") auto
  have t2: "truthy (Some v2)" using True assms v2 by simp
  show ?thesis
    unfolding labels_of_truthy[OF v1 True[unfolded v1]] labels_of_truthy[OF v2 t2]
    by (rule keys_spread_cong) simp
next
  case False
  then have f2: "\<not> truthy (event_of e2)" using assms by simp
  show ?thesis
    unfolding labels_of_falsy[OF False] labels_of_falsy[OF f2]
    by (rule keys_spread_cong) simp
qed

section \<open>Properties\<close>

text \<open>
  C4. When every invocation of the delivery function fails and the retry count \<open>r\<close> is
  not negative, \<open>retryWithBackoff\<close> with base delay 1000 invokes the function \<open>r + 1\<close>
  times, sleeps \<open>1000 * 2^(k-1)\<close> milliseconds before retry \<open>k\<close> (\<open>k = 1..r\<close>) and throws
  the last error. \<open>sendBatch\<close> on a transport that is not flushing and has a non-empty
  batch then empties the batch, does not put it back, reports the error with
  \<open>console.error\<close>, and its promise is fulfilled: nothing is raised to the caller.
\<close>

theorem retry_exhausted:
  assumes "0 \<le> r"
  shows "retryWithBackoff (\<lambda>i. Inl (err i)) r 1000 =
           (failures_then_call 1000 0 (nat r), Inl (Some (as_Error (err (nat r)))))
       \<and> calls (failures_then_call 1000 0 (nat r)) = nat r + 1
       \<and> sleeps (failures_then_call 1000 0 (nat r)) =
           map (\<lambda>k. 1000 * 2 ^ (k - 1)) [1..<nat r + 1]
       \<and> (batch t \<noteq> [] \<and> \<not> isFlushing t \<and> retries t = r \<longrightarrow>
           sendBatch gt ns (\<lambda>p i. Inl (perr p i)) t =
             (t\<lparr>batch := []\<rparr>,
              Some \<lparr>entries_sent = Array_sort (by_timestamp gt) (batch t),
                    payload = formatLokiPayload ns (Array_sort (by_timestamp gt) (batch t))
                                (staticLabels t),
                    trace = failures_then_call 1000 0 (nat r),
                    console_error =
                      Some (length (batch t), r,
                            Some (as_Error
                              (perr (formatLokiPayload ns (Array_sort (by_timestamp gt) (batch t))
                                 (staticLabels t)) (nat r))))\<rparr>,
              Inr ()))"
proof (intro conjI impI)
  show "retryWithBackoff (\<lambda>i. Inl (err i)) r 1000 =
      (failures_then_call 1000 0 (nat r), Inl (Some (as_Error (err (nat r)))))"
    unfolding retryWithBackoff_def
    using retry_loop_all_fail[of 0 r "\<lambda>i. Inl (err i)" err 1000 None] assms by simp
  show "calls (failures_then_call 1000 0 (nat r)) = nat r + 1"
    by (simp add: calls_failures_then_call)
  show "sleeps (failures_then_call 1000 0 (nat r)) = map (\<lambda>k. 1000 * 2 ^ (k - 1)) [1..<nat r + 1]"
    unfolding sleeps_failures_then_call by (rule backoff_delays)
next
  assume h: "batch t \<noteq> [] \<and> \<not> isFlushing t \<and> retries t = r"
  let ?es = "Array_sort (by_timestamp gt) (batch t)"
  let ?p = "formatLokiPayload ns ?es (staticLabels t)"
  have b: "sendBatch_begin gt t = (t\<lparr>batch := []\<rparr>, Some ?es)"
    using h by (simp add: sendBatch_begin_takes)
  have r: "retryWithBackoff (\<lambda>i. Inl (perr ?p i) :: thrown + unit) r 1000 =
      (failures_then_call 1000 0 (nat r), Inl (Some (as_Error (perr ?p (nat r)))))"
    unfolding retryWithBackoff_def
    using retry_loop_all_fail[of 0 r "\<lambda>i. Inl (perr ?p i)" "perr ?p" 1000 None] assms by simp
  show "sendBatch gt ns (\<lambda>p i. Inl (perr p i)) t =
             (t\<lparr>batch := []\<rparr>,
              Some \<lparr>entries_sent = ?es, payload = ?p,
                    trace = failures_then_call 1000 0 (nat r),
                    console_error = Some (length (batch t), r, Some (as_Error (perr ?p (nat r))))\<rparr>,
              Inr ())"
    using h by (simp add: sendBatch_def b r length_Array_sort)
qed

theorem retry_exhausted_witness:
  "retryWithBackoff (\<lambda>i. Inl (Non_Error ''500'') :: thrown + unit) 2 1000 =
     ([Call 0, Sleep 1000, Call 1, Sleep 2000, Call 2], Inl (Some (Error_instance ''500'')))
   \<and> calls [Call 0, Sleep 1000, Call 1, Sleep 2000, Call 2] = 3
   \<and> sleeps [Call 0, Sleep 1000, Call 1, Sleep 2000, Call 2] = [1000, 2000]
   \<and> batch sink_a \<noteq> [] \<and> \<not> isFlushing sink_a \<and> retries sink_a = 2
   \<and> batch (fst (sendBatch (\<lambda>s. 0) id (\<lambda>p i. Inl (Non_Error ''500'')) sink_a)) = []
   \<and> snd (snd (sendBatch (\<lambda>s. 0) id (\<lambda>p i. Inl (Non_Error ''500'')) sink_a)) = Inr ()
   \<and> map_option console_error (fst (snd (sendBatch (\<lambda>s. 0) id (\<lambda>p i. Inl (Non_Error ''500'')) sink_a)))
       = Some (Some (1, 2, Some (Error_instance ''500'')))"
proof -
  have f: "failures_then_call 1000 0 (nat 2) = [Call 0, Sleep 1000, Call 1, Sleep 2000, Call 2]"
    by (simp add: failures_then_call_def upt_conv_Cons)
  have z: "(0::int) \<le> 2" by simp
  have h: "batch sink_a \<noteq> [] \<and> \<not> isFlushing sink_a \<and> retries sink_a = 2"
    by (simp add: sink_a_def new_LokiTransport_def)
  show ?thesis
    using h retry_exhausted[OF z, where ?'a = unit and err = "\<lambda>i. Non_Error ''500''"
        and t = sink_a and gt = "\<lambda>s. 0" and ns = id and perr = "\<lambda>p i. Non_Error ''500''"]
    unfolding f by (simp add: calls_def sink_a_def new_LokiTransport_def)
qed




text \<open>
  C5. The list \<open>sendBatch\<close> gives to the payload formatter is the taken batch sorted by
  \<open>getTime\<close> of the timestamps, ascending; entries whose timestamps compare equal keep the
  order in which they were enqueued, and no entry is lost or added.
\<close>

theorem sendBatch_sorts_stably:
  "sorted (map (\<lambda>e. gt (timestamp e)) (Array_sort (by_timestamp gt) es))
   \<and> (\<forall>ms. filter (\<lambda>e. gt (timestamp e) = ms) (Array_sort (by_timestamp gt) es) =
            filter (\<lambda>e. gt (timestamp e) = ms) es)
   \<and> mset (Array_sort (by_timestamp gt) es) = mset es
   \<and> (batch t \<noteq> [] \<and> \<not> isFlushing t \<longrightarrow>
        sendBatch_begin gt t = (t\<lparr>batch := []\<rparr>, Some (Array_sort (by_timestamp gt) (batch t)))
        \<and> (\<exists>rep. fst (snd (sendBatch gt ns stl t)) = Some rep
              \<and> entries_sent rep = Array_sort (by_timestamp gt) (batch t)
              \<and> payload rep =
                  formatLokiPayload ns (Array_sort (by_timestamp gt) (batch t)) (staticLabels t)))"
proof (intro conjI allI impI)
  show "sorted (map (\<lambda>e. gt (timestamp e)) (Array_sort (by_timestamp gt) es))"
    unfolding Array_sort_by_timestamp by (rule sorted_sort_key)
  show "filter (\<lambda>e. gt (timestamp e) = ms) (Array_sort (by_timestamp gt) es) =
        filter (\<lambda>e. gt (timestamp e) = ms) es" for ms
    unfolding Array_sort_by_timestamp by (rule sort_key_stable)
  show "mset (Array_sort (by_timestamp gt) es) = mset es"
    by (rule mset_Array_sort_by_timestamp)
next
  assume h: "batch t \<noteq> [] \<and> \<not> isFlushing t"
  then show "sendBatch_begin gt t = (t\<lparr>batch := []\<rparr>, Some (Array_sort (by_timestamp gt) (batch t)))"
    by (simp add: sendBatch_begin_takes)
  from h show "\<exists>rep. fst (snd (sendBatch gt ns stl t)) = Some rep
              \<and> entries_sent rep = Array_sort (by_timestamp gt) (batch t)
              \<and> payload rep =
                  formatLokiPayload ns (Array_sort (by_timestamp gt) (batch t)) (staticLabels t)"
    by (simp add: sendBatch_report)
qed

theorem sendBatch_sorts_stably_witness:
  "batch sink_abc \<noteq> [] \<and> \<not> isFlushing sink_abc
   \<and> example_getTime (timestamp entry_a) = example_getTime (timestamp entry_c)
   \<and> example_getTime (timestamp entry_b) < example_getTime (timestamp entry_a)
   \<and> sendBatch_begin example_getTime sink_abc =
       (sink_abc\<lparr>batch := []\<rparr>, Some [entry_b, entry_a, entry_c])"
proof -
  have h: "batch sink_abc \<noteq> [] \<and> \<not> isFlushing sink_abc"
    by (simp add: sink_abc_def new_LokiTransport_def)
  have s: "Array_sort (by_timestamp example_getTime) (batch sink_abc) = [entry_b, entry_a, entry_c]"
    by (simp add: sink_abc_def new_LokiTransport_def Array_sort_def by_timestamp_def
        example_getTime_def entry_a_def entry_b_def entry_c_def)
  have t: "example_getTime (timestamp entry_a) = example_getTime (timestamp entry_c)
      \<and> example_getTime (timestamp entry_b) < example_getTime (timestamp entry_a)"
    by (simp add: example_getTime_def entry_a_def entry_b_def entry_c_def)
  show ?thesis
    using h t sendBatch_sorts_stably[of example_getTime "batch sink_abc" sink_abc id "\<lambda>p i. Inr ()"]
    unfolding s by simp
qed

text \<open>
  C3, as stated, fails: \<open>sendBatch\<close> has no guard for a send in flight. With two entries
  being delivered and a third one pending, the next call takes the pending entry and
  starts a second, overlapping delivery.
\<close>

theorem sendBatch_overlaps_counterexample:
  "in_flight world_sending = 1
   \<and> fst (sendBatch_begin example_getTime (sink world_sending)) \<noteq> sink world_sending
   \<and> snd (sendBatch_begin example_getTime (sink world_sending)) = Some [entry_c]
   \<and> in_flight (step example_getTime world_sending Tick) = 2"
  by (simp add: world_sending_eq config_two_def new_LokiTransport_def
      sendBatch_begin_def timer_callback_def record_taken_def Array_sort_def)

text \<open>
  C3, amended. \<open>sendBatch\<close> returns at once and leaves the state unchanged when the batch
  is empty or the flag \<open>isFlushing\<close> is set. Otherwise, whether or not an earlier send is
  still in flight, it takes the whole batch into a local list and empties the batch
  before any delivery starts. In every run from a new transport, every entry given to
  \<open>log\<close> is either still in the batch or in exactly one taken batch.
\<close>

theorem sendBatch_guard_and_snapshot:
  "((batch t = [] \<or> isFlushing t) \<longrightarrow>
       sendBatch_begin gt t = (t, None) \<and> sendBatch gt ns stl t = (t, None, Inr ()))
   \<and> ((batch t \<noteq> [] \<and> \<not> isFlushing t) \<longrightarrow>
       sendBatch_begin gt t = (t\<lparr>batch := []\<rparr>, Some (Array_sort (by_timestamp gt) (batch t)))
       \<and> mset (Array_sort (by_timestamp gt) (batch t)) = mset (batch t))
   \<and> accounted (run gt (initial_world config) acts)"
  by (simp add: sendBatch_begin_skips sendBatch_skips sendBatch_begin_takes
      mset_Array_sort_by_timestamp run_accounted accounted_initial_world)

theorem sendBatch_guard_and_snapshot_witness:
  "batch (sink world_sending) \<noteq> [] \<and> \<not> isFlushing (sink world_sending)
   \<and> sendBatch_begin example_getTime (sink world_sending) =
       ((sink world_sending)\<lparr>batch := []\<rparr>, Some [entry_c])
   \<and> isFlushing (sink world_flushing)
   \<and> sendBatch_begin example_getTime (sink world_flushing) = (sink world_flushing, None)
   \<and> accounted world_sending"
proof -
  have s: "Array_sort (by_timestamp example_getTime) (batch (sink world_sending)) = [entry_c]"
    by (simp add: world_sending_eq Array_sort_def)
  have a: "batch (sink world_sending) \<noteq> [] \<and> \<not> isFlushing (sink world_sending)"
    by (simp add: world_sending_eq new_LokiTransport_def)
  have f: "isFlushing (sink world_flushing)"
    by (simp add: world_flushing_def run_def initial_world_def config_two_def new_LokiTransport_def
      LokiTransport_log_def flush_begin_def sendBatch_begin_def record_taken_def)
  show ?thesis
    using a f
      sendBatch_guard_and_snapshot[of "sink world_sending" example_getTime id "\<lambda>p i. Inr ()"
        config_two "[Log entry_a, Log entry_b, Log entry_c]"]
      sendBatch_guard_and_snapshot[of "sink world_flushing" example_getTime id "\<lambda>p i. Inr ()"
        config_two "[]"]
    unfolding s world_sending_def[symmetric] by simp
qed




text \<open>
  C1. \<open>flush()\<close> sets \<open>isFlushing\<close> before it calls \<open>sendBatch\<close>, whose guard then returns
  at once: in every state \<open>flush()\<close> takes no batch and leaves the batch as it was. On a
  new transport with one entry pending, \<open>flush()\<close> stops the timer; when it has resolved
  the entry is still in the batch, no batch was taken, no delivery was started, and the
  stopped timer will not send it either.
\<close>

theorem flush_sends_nothing:
  "snd (LokiTransport_flush gt t) = None
   \<and> batch (fst (LokiTransport_flush gt t)) = batch t
   \<and> batch (sink world_one_pending) = [entry_a]
   \<and> batchTimer (sink world_one_pending)
   \<and> LokiTransport_flush example_getTime (sink world_one_pending) =
       ((sink world_one_pending)\<lparr>batchTimer := False\<rparr>, None)
   \<and> batch (sink (run example_getTime world_one_pending [Flush, Resume_flush, Tick])) = [entry_a]
   \<and> taken (run example_getTime world_one_pending [Flush, Resume_flush, Tick]) = []
   \<and> in_flight (run example_getTime world_one_pending [Flush, Resume_flush, Tick]) = 0
   \<and> awaiting (run example_getTime world_one_pending [Flush, Resume_flush, Tick]) = 0"
  using flush_never_takes[of gt t]
  by (simp add: world_one_pending_eq new_LokiTransport_def LokiTransport_flush_def flush_begin_def
      flush_end_def sendBatch_begin_def run_def record_taken_def)

text \<open>
  C8. \<open>formatJSONL\<close> spreads the metadata after the fields \<open>timestamp\<close>, \<open>level\<close>, \<open>service\<close>
  and \<open>message\<close>: the emitted object has each key once, and a key of the metadata carries
  the metadata's value, also when it is one of the four reserved keys. A metadata key
  \<open>message\<close> replaces the entry's message; without one the entry's message stands.
\<close>

theorem formatJSONL_metadata_wins:
  assumes "distinct (map fst (own_enumerable (metadata entry)))"
  shows "formatJSONL entry = (JSON_stringify (JObj (logObject entry)), [CHR 0x0A])
       \<and> distinct (map fst (logObject entry))
       \<and> map_of (logObject entry) =
           map_of [(''timestamp'', JStr (timestamp entry)),
                   (''level'', JStr (level_value (level entry))),
                   (''service'', JStr (service entry)),
                   (''message'', JStr (message entry))]
           ++ map_of (own_enumerable (metadata entry))
       \<and> (map_of (own_enumerable (metadata entry)) k = Some v \<longrightarrow>
            map_of (logObject entry) k = Some v)
       \<and> (map_of (own_enumerable (metadata entry)) ''message'' = Some v \<longrightarrow>
            map_of (logObject entry) ''message'' = Some v)
       \<and> (map_of (own_enumerable (metadata entry)) ''message'' = None \<longrightarrow>
            map_of (logObject entry) ''message'' = Some (JStr (message entry)))"
proof -
  have m: "map_of (logObject entry) =
           map_of [(''timestamp'', JStr (timestamp entry)),
                   (''level'', JStr (level_value (level entry))),
                   (''service'', JStr (service entry)),
                   (''message'', JStr (message entry))]
           ++ map_of (own_enumerable (metadata entry))"
    unfolding logObject_def reserved_fields by (rule map_of_spread_metadata[OF assms])
  have d: "distinct (map fst (logObject entry))"
    unfolding logObject_def reserved_fields by (rule distinct_spread_metadata) simp
  show ?thesis
    unfolding m using d by (simp add: formatJSONL_def map_add_def)
qed

theorem formatJSONL_metadata_wins_witness:
  "distinct (map fst (own_enumerable (metadata entry_fake_message)))
   \<and> map_of (own_enumerable (metadata entry_fake_message)) ''message'' = Some (JStr ''fake'')
   \<and> message entry_fake_message = ''real''
   \<and> map_of (logObject entry_fake_message) ''message'' = Some (JStr ''fake'')
   \<and> formatJSONL entry_fake_message =
       (JSON_stringify (JObj
          [(''timestamp'', JStr ''2025-01-01T00:00:01.000Z''), (''level'', JStr ''info''),
           (''service'', JStr ''svc''), (''message'', JStr ''fake''), (''userId'', JNum 123)]),
        [CHR 0x0A])"
proof -
  have d: "distinct (map fst (own_enumerable (metadata entry_fake_message)))"
    by (simp add: entry_fake_message_def)
  have g: "map_of (own_enumerable (metadata entry_fake_message)) ''message'' = Some (JStr ''fake'')"
    by (simp add: entry_fake_message_def)
  have l: "logObject entry_fake_message =
      [(''timestamp'', JStr ''2025-01-01T00:00:01.000Z''), (''level'', JStr ''info''),
       (''service'', JStr ''svc''), (''message'', JStr ''fake''), (''userId'', JNum 123)]"
    by (simp add: logObject_def reserved_fields spread_metadata_def entry_fake_message_def
        spread_def put_def is_array_index_def is_digit_def)
  show ?thesis
    using d g formatJSONL_metadata_wins[OF d, of "''message''" "JStr ''fake''"]
    unfolding l by (simp add: entry_fake_message_def)
qed

text \<open>
  C2. \<open>error(message, metadata?)\<close> has no overload for an \<open>Error\<close>: called with an \<open>Error\<close>
  object (and any further arguments) it hands the object itself to the transports as
  the entry's metadata. The entry has a field \<open>error\<close>, \<open>errorName\<close> or \<open>errorStack\<close> only if
  the \<open>Error\<close> object already had an own enumerable property of that name, further
  arguments are dropped, and for the \<open>Error\<close> of the repository's test the emitted object
  holds the four reserved fields only.
\<close>

theorem error_takes_no_Error_object:
  "Logger_error now lg msg (ErrorObject n m s ps # rest) =
     map (\<lambda>tr. (tr, \<lparr>timestamp = now, level = ERROR, service = logger_service lg,
                      message = msg, metadata = ErrorObject n m s ps\<rparr>))
       (transports lg)
   \<and> get_prop (ErrorObject n m s ps) ''error'' = map_of ps ''error''
   \<and> get_prop (ErrorObject n m s ps) ''errorName'' = map_of ps ''errorName''
   \<and> get_prop (ErrorObject n m s ps) ''errorStack'' = map_of ps ''errorStack''
   \<and> get_prop error_boom ''error'' = None
   \<and> logObject \<lparr>timestamp = now, level = ERROR, service = logger_service lg,
                  message = ''Operation failed'', metadata = error_boom\<rparr> =
       [(''timestamp'', JStr now), (''level'', JStr ''error''),
        (''service'', JStr (logger_service lg)), (''message'', JStr ''Operation failed'')]"
  by (simp add: Logger_error_def Logger_log_def createEntry_def error_boom_def
      logObject_def reserved_fields spread_metadata_def spread_empty split: option.splits)

text \<open>
  C9. An entry whose \<open>metadata.event\<close> is falsy (absent, \<open>null\<close>, \<open>false\<close>, \<open>0\<close> or the empty
  string) gets no \<open>event\<close> label from its metadata: its labels are those of \<open>service\<close>,
  \<open>level\<close> and the static labels, with no key \<open>event\<close> unless the static labels have one.
  It has the same labels and the same label key as an entry of the same service and
  level that has no \<open>event\<close> at all, and in the payload of any list holding both, the one
  stream with these labels holds both.
\<close>

theorem falsy_event_gives_no_label:
  assumes "\<not> truthy (event_of e)" and "event_of e' = None"
    and "service e' = service e" and "level e' = level e"
  shows "labels_of st e =
           spread [(''service'', JStr (service e)), (''level'', JStr (level_value (level e)))] st
       \<and> (''event'' \<notin> set (map fst st) \<longrightarrow> ''event'' \<notin> set (map fst (labels_of st e)))
       \<and> labels_of st e = labels_of st e'
       \<and> labelKey_of st e = labelKey_of st e'
       \<and> (e \<in> set es \<and> e' \<in> set es \<longrightarrow>
            filter (\<lambda>s. stream s = JObj (labels_of st e)) (streams (formatLokiPayload ns es st)) =
              [stream_for ns st es (labelKey_of st e)]
            \<and> e \<in> set (filter (\<lambda>x. labelKey_of st x = labelKey_of st e) es)
            \<and> e' \<in> set (filter (\<lambda>x. labelKey_of st x = labelKey_of st e) es))"
proof -
  have a: "labels_of st e =
      spread [(''service'', JStr (service e)), (''level'', JStr (level_value (level e)))] st"
    using assms(1) by (rule labels_of_falsy)
  have b: "labels_of st e' =
      spread [(''service'', JStr (service e)), (''level'', JStr (level_value (level e)))] st"
    using labels_of_falsy[of e' st] assms(2,3,4) by simp
  have c: "labels_of st e = labels_of st e'" using a b by simp
  have d: "''event'' \<notin> set (map fst st) \<longrightarrow> ''event'' \<notin> set (map fst (labels_of st e))"
    unfolding a keys_spread by simp
  show ?thesis
    using a c d stream_of_entry(2)[where e = e and es = es and ns = ns and st = st]
    by (simp add: labelKey_of_def)
qed

theorem falsy_event_gives_no_label_witness:
  "\<not> truthy (event_of entry_c) \<and> event_of entry_c = Some (JStr '''')
   \<and> event_of entry_b = None
   \<and> service entry_b = service entry_c \<and> level entry_b = level entry_c
   \<and> labels_of [] entry_c = [(''service'', JStr ''svc''), (''level'', JStr ''info'')]
   \<and> labels_of [] entry_b = [(''service'', JStr ''svc''), (''level'', JStr ''info'')]
   \<and> filter (\<lambda>s. stream s = JObj (labels_of [] entry_c))
        (streams (formatLokiPayload id [entry_a, entry_b, entry_c] [])) =
       [stream_for id [] [entry_a, entry_b, entry_c] (labelKey_of [] entry_c)]
   \<and> stream_values (stream_for id [] [entry_a, entry_b, entry_c] (labelKey_of [] entry_c)) =
       [value_of id entry_b, value_of id entry_c]"
proof -
  have h: "\<not> truthy (event_of entry_c)" "event_of entry_b = None"
    "service entry_b = service entry_c" "level entry_b = level entry_c"
    by (simp_all add: event_of_def entry_b_def entry_c_def)
  have m: "entry_c \<in> set [entry_a, entry_b, entry_c] \<and> entry_b \<in> set [entry_a, entry_b, entry_c]"
    by simp
  have l: "labels_of [] entry_c = [(''service'', JStr ''svc''), (''level'', JStr ''info'')]"
    "labels_of [] entry_b = [(''service'', JStr ''svc''), (''level'', JStr ''info'')]"
    "labels_of [] entry_a = [(''service'', JStr ''svc''), (''level'', JStr ''info''),
        (''event'', JStr ''login'')]"
    by (simp_all add: labels_of_def event_of_def entry_a_def entry_b_def entry_c_def
        base_labels base_labels_event spread_empty)
  have v: "stream_values (stream_for id [] [entry_a, entry_b, entry_c] (labelKey_of [] entry_c)) =
       [value_of id entry_b, value_of id entry_c]"
    by (simp add: stream_for_def labelKey_of_def l)
  have ev: "event_of entry_c = Some (JStr '''')"
    by (simp add: event_of_def entry_c_def)
  have f: "filter (\<lambda>s. stream s = JObj (labels_of [] entry_c))
        (streams (formatLokiPayload id [entry_a, entry_b, entry_c] [])) =
       [stream_for id [] [entry_a, entry_b, entry_c] (labelKey_of [] entry_c)]"
    using m falsy_event_gives_no_label[OF h, where st = "[]" and es = "[entry_a, entry_b, entry_c]"
        and ns = id]
    by blast
  show ?thesis
    using h ev v f by (simp add: l)
qed

text \<open>
  C6. With the static labels \<open>{environment: "prod", event: "X"}\<close>, an entry whose metadata
  has an \<open>event\<close> and an entry without one get the same label set (the static \<open>event\<close>
  overwrites the entry's), but the property \<open>event\<close> is created at different places, the
  two JSON keys differ, and \<open>formatLokiPayload\<close> puts the two entries into two streams
  with equal label sets.
\<close>

theorem same_labels_two_streams:
  "set (labels_of statics_with_event entry_a) = set (labels_of statics_with_event entry_b)
   \<and> map_of (labels_of statics_with_event entry_a) = map_of (labels_of statics_with_event entry_b)
   \<and> labelKey_of statics_with_event entry_a \<noteq> labelKey_of statics_with_event entry_b
   \<and> streams (formatLokiPayload ns [entry_a, entry_b] statics_with_event) =
       [\<lparr>stream = JObj [(''service'', JStr ''svc''), (''level'', JStr ''info''),
                        (''event'', JStr ''X''), (''environment'', JStr ''prod'')],
         stream_values = [value_of ns entry_a]\<rparr>,
        \<lparr>stream = JObj [(''service'', JStr ''svc''), (''level'', JStr ''info''),
                        (''environment'', JStr ''prod''), (''event'', JStr ''X'')],
         stream_values = [value_of ns entry_b]\<rparr>]"
proof (intro conjI)
  show "set (labels_of statics_with_event entry_a) = set (labels_of statics_with_event entry_b)"
    unfolding labels_entry_a labels_entry_b by auto
  show "map_of (labels_of statics_with_event entry_a) = map_of (labels_of statics_with_event entry_b)"
    unfolding labels_entry_a labels_entry_b by (auto simp: fun_eq_iff)
  show k: "labelKey_of statics_with_event entry_a \<noteq> labelKey_of statics_with_event entry_b"
    unfolding labelKey_of_def labels_entry_a labels_entry_b by simp
  show "streams (formatLokiPayload ns [entry_a, entry_b] statics_with_event) =
       [\<lparr>stream = JObj [(''service'', JStr ''svc''), (''level'', JStr ''info''),
                        (''event'', JStr ''X''), (''environment'', JStr ''prod'')],
         stream_values = [value_of ns entry_a]\<rparr>,
        \<lparr>stream = JObj [(''service'', JStr ''svc''), (''level'', JStr ''info''),
                        (''environment'', JStr ''prod''), (''event'', JStr ''X'')],
         stream_values = [value_of ns entry_b]\<rparr>]"
    using k k[symmetric]
    by (simp add: streams_by_label_key stream_for_def)
       (simp add: labelKey_of_def labels_entry_a labels_entry_b)
qed

section \<open>Further properties of the Loki formatter\<close>

text \<open>
  The payload has one stream per distinct label key, in the order in which the keys
  first occur in the input; the labels of a stream are its key read back, and its values
  are those of the entries with that key, in input order.
\<close>

theorem formatLokiPayload_streams:
  "streams (formatLokiPayload ns es st) =
     map (stream_for ns st es) (first_occurrences (map (labelKey_of st) es))
   \<and> distinct (first_occurrences (map (labelKey_of st) es))
   \<and> set (first_occurrences (map (labelKey_of st) es)) = set (map (labelKey_of st) es)"
  by (simp add: streams_by_label_key distinct_first_occurrences set_first_occurrences del: set_map)

text \<open>
  A static label overwrites the label of the same name derived from the entry;
  \<open>service\<close> and \<open>level\<close> carry the entry's values when the static labels do not name them.
\<close>

theorem static_labels_win:
  "(distinct (map fst st) \<and> map_of st k = Some v \<longrightarrow> map_of (labels_of st e) k = Some v)
   \<and> (k \<notin> set (map fst st) \<and> k = ''service'' \<longrightarrow>
        map_of (labels_of st e) k = Some (JStr (service e)))
   \<and> (k \<notin> set (map fst st) \<and> k = ''level'' \<longrightarrow>
        map_of (labels_of st e) k = Some (JStr (level_value (level e))))"
proof -
  have r: "distinct (map fst st) \<Longrightarrow> map_of (rev st) = map_of st"
    by (rule map_of_rev_distinct)
  have n: "k \<notin> set (map fst st) \<Longrightarrow> map_of (rev st) k = None"
    by (simp add: map_of_eq_None_iff)
  show ?thesis
  proof (cases "truthy (event_of e)")
    case True
    then obtain w where w: "event_of e = Some w" by (cases "event_of e") auto
    show ?thesis
      unfolding labels_of_truthy[OF w True[unfolded w]] map_of_spread
      using r n by (auto simp: map_add_def)
  next
    case False
    show ?thesis
      unfolding labels_of_falsy[OF False] map_of_spread
      using r n by (auto simp: map_add_def)
  qed
qed

theorem static_labels_win_witness:
  "distinct (map fst statics_with_event)
   \<and> map_of statics_with_event ''event'' = Some (JStr ''X'')
   \<and> event_of entry_a = Some (JStr ''login'')
   \<and> map_of (labels_of statics_with_event entry_a) ''event'' = Some (JStr ''X'')
   \<and> ''service'' \<notin> set (map fst statics_with_event)
   \<and> map_of (labels_of statics_with_event entry_a) ''service'' = Some (JStr ''svc'')
   \<and> ''level'' \<notin> set (map fst statics_with_event)
   \<and> map_of (labels_of statics_with_event entry_a) ''level'' = Some (JStr ''info'')"
proof -
  have h: "distinct (map fst statics_with_event) \<and> map_of statics_with_event ''event'' = Some (JStr ''X'')"
    "''service'' \<notin> set (map fst statics_with_event)" "''level'' \<notin> set (map fst statics_with_event)"
    by (simp_all add: statics_with_event_def)
  have e: "event_of entry_a = Some (JStr ''login'')" "service entry_a = ''svc''" "level entry_a = INFO"
    by (simp_all add: event_of_def entry_a_def)
  show ?thesis
    using h e static_labels_win[of statics_with_event "''event''" "JStr ''X''" entry_a]
      static_labels_win[of statics_with_event "''service''" "JStr ''X''" entry_a]
      static_labels_win[of statics_with_event "''level''" "JStr ''X''" entry_a]
    by simp
qed

text \<open>
  When the static labels have no key \<open>event\<close>, two entries have the same label key
  exactly when they have the same label set: grouping by key is grouping by label set.
\<close>

theorem label_key_is_label_set:
  assumes "''event'' \<notin> set (map fst st)"
  shows "(labelKey_of st e1 = labelKey_of st e2) =
           (map_of (labels_of st e1) = map_of (labels_of st e2))"
proof
  assume "labelKey_of st e1 = labelKey_of st e2"
  then show "map_of (labels_of st e1) = map_of (labels_of st e2)"
    by (simp add: labelKey_of_def)
next
  assume m: "map_of (labels_of st e1) = map_of (labels_of st e2)"
  have "(''event'' \<in> set (map fst (labels_of st e1))) = (''event'' \<in> set (map fst (labels_of st e2)))"
    using fun_cong[OF m, of "''event''"] map_of_eq_None_iff[of "labels_of st e1" "''event''"]
      map_of_eq_None_iff[of "labels_of st e2" "''event''"]
    by (simp del: set_map) (metis image_set)
  then have "truthy (event_of e1) = truthy (event_of e2)"
    unfolding event_key_iff[OF assms] .
  then have "map fst (labels_of st e1) = map fst (labels_of st e2)" by (rule keys_labels_of)
  then have "labels_of st e1 = labels_of st e2"
    using distinct_labels_of m by (rule alist_eqI)
  then show "labelKey_of st e1 = labelKey_of st e2" by (simp add: labelKey_of_def)
qed

theorem label_key_is_label_set_witness:
  "''event'' \<notin> set (map fst [(''environment'', JStr ''prod'')])
   \<and> labelKey_of [(''environment'', JStr ''prod'')] entry_b =
       labelKey_of [(''environment'', JStr ''prod'')] entry_c
   \<and> map_of (labels_of [(''environment'', JStr ''prod'')] entry_b) =
       map_of (labels_of [(''environment'', JStr ''prod'')] entry_c)
   \<and> labelKey_of [(''environment'', JStr ''prod'')] entry_a \<noteq>
       labelKey_of [(''environment'', JStr ''prod'')] entry_b
   \<and> map_of (labels_of [(''environment'', JStr ''prod'')] entry_a) \<noteq>
       map_of (labels_of [(''environment'', JStr ''prod'')] entry_b)"
proof -
  have h: "''event'' \<notin> set (map fst [(''environment'', JStr ''prod'')])" by simp
  have bc: "labels_of [(''environment'', JStr ''prod'')] entry_b =
      labels_of [(''environment'', JStr ''prod'')] entry_c"
    by (simp add: labels_of_def event_of_def entry_b_def entry_c_def)
  have ab: "map_of (labels_of [(''environment'', JStr ''prod'')] entry_a) ''event'' \<noteq>
      map_of (labels_of [(''environment'', JStr ''prod'')] entry_b) ''event''"
    by (simp add: labels_of_def event_of_def entry_a_def entry_b_def base_labels base_labels_event
        map_of_spread)
  then have ab': "map_of (labels_of [(''environment'', JStr ''prod'')] entry_a) \<noteq>
      map_of (labels_of [(''environment'', JStr ''prod'')] entry_b)"
    by metis
  show ?thesis
    using h ab' label_key_is_label_set[OF h, of entry_a entry_b]
      label_key_is_label_set[OF h, of entry_b entry_c]
    by (simp add: bc)
qed

end
